theory Spec2Isabelle
  imports Complex_Main "HOL-Library.Word"
begin

section \<open>Numbers, bytes and typed arrays\<close>

text \<open>
  The scanner works on canvas pixel buffers. A \<^verbatim>\<open>Uint8ClampedArray\<close> is a list of
  8-bit words. JavaScript numbers are modelled as real numbers: every intermediate value
  of the detection pipeline is an integer or an integer divided by a power of two, which a
  double represents exactly; the luma weights, \<^verbatim>\<open>Math.atan2\<close> and \<^verbatim>\<open>Math.acos\<close> are the
  places where a double is only close to the real number used here.
  The values that are not real numbers (\<^verbatim>\<open>NaN\<close> and the infinities) are kept where
  the code can produce them: as \<open>None\<close> for a sum that read outside a typed array, and as
  the type \<open>jsnum\<close> in the angle computation.
\<close>

type_synonym byte = "8 word"

datatype jsnum = Num real | PosInf | NegInf | NaN


datatype point = Point (px: int) (py: int)

record imageData =
  width :: nat
  height :: nat
  data :: "byte list"

text \<open>
  Storing a number into a \<^verbatim>\<open>Uint8ClampedArray\<close> clamps it to \<open>[0, 255]\<close> and rounds
  it to the nearest integer, ties to the even one.
\<close>

definition toUint8Clamp :: "real \<Rightarrow> byte" where
  "toUint8Clamp v =
     (let c = min 255 (max 0 v); f = \<lfloor>c\<rfloor>
      in word_of_int
           (if real_of_int f + 1 / 2 < c then f + 1
            else if c < real_of_int f + 1 / 2 then f
            else if even f then f else f + 1))"

text \<open>A write to a typed array at an index outside it is ignored.\<close>

definition store :: "'a list \<Rightarrow> nat \<Rightarrow> 'a \<Rightarrow> 'a list" where
  "store xs i v = (if i < length xs then xs[i := v] else xs)"

text \<open>The values of \<^verbatim>\<open>for (let i = start; i < bound; i += k)\<close>.\<close>

function stepFrom :: "nat \<Rightarrow> nat \<Rightarrow> nat \<Rightarrow> nat list" where
  "stepFrom i bound k = (if i < bound \<and> 0 < k then i # stepFrom (i + k) bound k else [])"
  by pat_completeness auto
termination
  by (relation "measure (\<lambda>(i, bound, k). bound - i)") auto

declare stepFrom.simps [simp del]

text \<open>
  Reading a typed array outside its range gives \<^verbatim>\<open>undefined\<close>, and
  \<^verbatim>\<open>undefined\<close> stored into a \<^verbatim>\<open>Uint8ClampedArray\<close> is 0.
\<close>

definition readOr0 :: "byte list \<Rightarrow> nat \<Rightarrow> byte" where
  "readOr0 d i = (if i < length d then d ! i else 0)"

section \<open>Stage 1: grayscale\<close>

definition luma :: "byte \<Rightarrow> byte \<Rightarrow> byte \<Rightarrow> real" where
  "luma r g b = real (unat r) * 0.299 + real (unat g) * 0.587 + real (unat b) * 0.114"

text \<open>
  The value stored for the pixel that starts at byte \<open>i\<close>. When the buffer ends inside
  the pixel, a channel reads \<^verbatim>\<open>undefined\<close>, the sum is \<^verbatim>\<open>NaN\<close> and the byte stored is 0.
\<close>

definition grayPixel :: "byte list \<Rightarrow> nat \<Rightarrow> byte" where
  "grayPixel d i =
     (if i + 2 < length d then toUint8Clamp (luma (d ! i) (d ! (i + 1)) (d ! (i + 2))) else 0)"

definition convertToGrayscale :: "imageData \<Rightarrow> byte list" where
  "convertToGrayscale img =
     fold (\<lambda>i grayData. store grayData (i div 4) (grayPixel (data img) i))
       (stepFrom 0 (length (data img)) 4)
       (replicate (width img * height img) 0)"

section \<open>Stages 2 and 3: smoothing and Sobel edges\<close>

text \<open>
  The nine \<open>(ky, kx)\<close> offsets in the order of the two inner loops, which is the order
  in which \<^verbatim>\<open>kernelIndex\<close> walks the flat kernels.
\<close>

definition offsets :: "(int \<times> int) list" where
  "offsets = [(ky, kx). ky \<leftarrow> [-1, 0, 1], kx \<leftarrow> [-1, 0, 1]]"

definition kernel :: "int list" where
  "kernel = [1, 2, 1, 2, 4, 2, 1, 2, 1]"

definition kernelSum :: real where
  "kernelSum = 16"

definition sobelX :: "int list" where
  "sobelX = [-1, 0, 1, -2, 0, 2, -1, 0, 1]"

definition sobelY :: "int list" where
  "sobelY = [-1, -2, -1, 0, 0, 0, 1, 2, 1]"

text \<open>
  The weighted sum around \<open>(x, y)\<close>. A read outside the array gives \<^verbatim>\<open>undefined\<close>,
  which makes the whole sum \<^verbatim>\<open>NaN\<close>: that is \<open>None\<close>.
\<close>

definition convolve :: "byte list \<Rightarrow> nat \<Rightarrow> int list \<Rightarrow> nat \<Rightarrow> nat \<Rightarrow> int option" where
  "convolve d w ker x y =
     (let idxs = map (\<lambda>(ky, kx). (int y + ky) * int w + (int x + kx)) offsets
      in if list_all (\<lambda>i. 0 \<le> i \<and> i < int (length d)) idxs
         then Some (sum_list (map (\<lambda>(i, c). uint (d ! nat i) * c) (zip idxs ker)))
         else None)"

definition blurPixel :: "byte list \<Rightarrow> nat \<Rightarrow> nat \<Rightarrow> nat \<Rightarrow> byte" where
  "blurPixel d w x y =
     (case convolve d w kernel x y of
        None \<Rightarrow> 0
      | Some s \<Rightarrow> toUint8Clamp (real_of_int s / kernelSum))"

definition gaussianBlur :: "byte list \<Rightarrow> nat \<Rightarrow> nat \<Rightarrow> byte list" where
  "gaussianBlur d w h =
     fold (\<lambda>y. fold (\<lambda>x result. store result (y * w + x) (blurPixel d w x y)) [1..<w - 1])
       [1..<h - 1]
       (replicate (length d) 0)"

definition sobelPixel :: "byte list \<Rightarrow> nat \<Rightarrow> nat \<Rightarrow> nat \<Rightarrow> byte" where
  "sobelPixel d w x y =
     (case (convolve d w sobelX x y, convolve d w sobelY x y) of
        (Some gx, Some gy) \<Rightarrow>
          (let magnitude = sqrt (real_of_int (gx * gx + gy * gy))
           in if magnitude > 50 then 255 else 0)
      | _ \<Rightarrow> 0)"

definition sobelEdgeDetection :: "byte list \<Rightarrow> nat \<Rightarrow> nat \<Rightarrow> byte list" where
  "sobelEdgeDetection d w h =
     fold (\<lambda>y. fold (\<lambda>x edges. store edges (y * w + x) (sobelPixel d w x y)) [1..<w - 1])
       [1..<h - 1]
       (replicate (length d) 0)"

section \<open>Stage 4: contour tracing\<close>

text \<open>
  \<^verbatim>\<open>edges[index] === 0\<close> and \<^verbatim>\<open>edges[index] > 0\<close>; both are false when the index is
  outside the array.
\<close>

definition edgeOff :: "byte list \<Rightarrow> nat \<Rightarrow> bool" where
  "edgeOff edges index = (index < length edges \<and> edges ! index = 0)"

definition edgeOn :: "byte list \<Rightarrow> nat \<Rightarrow> bool" where
  "edgeOn edges index = (index < length edges \<and> 0 < edges ! index)"

text \<open>The eight neighbours in the order in which they are pushed.\<close>

definition neighbours :: "int \<Rightarrow> int \<Rightarrow> point list" where
  "neighbours x y =
     map (\<lambda>(dy, dx). Point (x + dx) (y + dy))
       [(-1, -1), (-1, 0), (-1, 1), (0, -1), (0, 1), (1, -1), (1, 0), (1, 1)]"

text \<open>
  The loop of \<^verbatim>\<open>traceContour\<close>. The stack is a list whose head is the top, so pushing
  the neighbours one after the other puts them in front in reverse order. The array
  \<^verbatim>\<open>visited\<close> holds \<^verbatim>\<open>false\<close> everywhere at first and is only ever set to \<^verbatim>\<open>true\<close>:
  it is the set of the indices that hold \<^verbatim>\<open>true\<close>.
\<close>

function traceLoop ::
  "byte list \<Rightarrow> nat \<Rightarrow> nat \<Rightarrow> point list \<Rightarrow> point list \<Rightarrow> nat set \<Rightarrow> point list \<times> nat set"
where
  "traceLoop edges w h stack contour visited =
     (case stack of
        [] \<Rightarrow> (contour, visited)
      | p # rest \<Rightarrow>
          if length contour < 1000 then
            (let x = px p; y = py p; index = nat (y * int w + x)
             in if x < 0 \<or> int w \<le> x \<or> y < 0 \<or> int h \<le> y \<or> index \<in> visited \<or> edgeOff edges index
                then traceLoop edges w h rest contour visited
                else traceLoop edges w h (rev (neighbours x y) @ rest) (contour @ [p])
                       (insert index visited))
          else (contour, visited))"
  by pat_completeness auto
termination
  by (relation "measure (\<lambda>(edges, w, h, stack, contour, visited).
        8 * (1000 - length contour) + length stack)")
     (auto simp: neighbours_def)

declare traceLoop.simps [simp del]

definition traceContour ::
  "byte list \<Rightarrow> nat \<Rightarrow> nat \<Rightarrow> nat \<Rightarrow> nat \<Rightarrow> nat set \<Rightarrow> point list \<times> nat set"
where
  "traceContour edges w h startX startY visited =
     traceLoop edges w h [Point (int startX) (int startY)] [] visited"

section \<open>Stages 5 and 6: convex hull and quadrilateral\<close>

definition crossProduct :: "point \<Rightarrow> point \<Rightarrow> point \<Rightarrow> int" where
  "crossProduct o' a b = (px a - px o') * (py b - py o') - (py a - py o') * (px b - px o')"

definition atan2 :: "real \<Rightarrow> real \<Rightarrow> real" where
  "atan2 y x =
     (if 0 < x then arctan (y / x)
      else if x < 0 then (if 0 \<le> y then arctan (y / x) + pi else arctan (y / x) - pi)
      else if 0 < y then pi / 2
      else if y < 0 then - pi / 2
      else 0)"

definition polarAngle :: "point \<Rightarrow> point \<Rightarrow> real" where
  "polarAngle start a = atan2 (real_of_int (py a - py start)) (real_of_int (px a - px start))"

text \<open>
  The inner \<^verbatim>\<open>while\<close> of the scan; the hull is kept with its last point first.
\<close>

fun hullPop :: "point \<Rightarrow> point list \<Rightarrow> point list" where
  "hullPop pt (a # b # rest) =
     (if crossProduct b a pt \<le> 0 then hullPop pt (b # rest) else a # b # rest)"
| "hullPop pt hpts = hpts"

definition lowest :: "point \<Rightarrow> point \<Rightarrow> point" where
  "lowest m p = (if py p > py m \<or> (py p = py m \<and> px p < px m) then p else m)"

text \<open>
  \<^verbatim>\<open>points.filter(p => p !== start)\<close> compares object identities, so it drops the one
  object that \<^verbatim>\<open>reduce\<close> returned, which is the first of the points with that value.
  The comparator of \<^verbatim>\<open>sort\<close> is the difference of two keys and the sort is stable.
\<close>

definition convexHull :: "point list \<Rightarrow> point list" where
  "convexHull points =
     (if length points < 3 then points
      else case points of
        [] \<Rightarrow> points
      | p # ps \<Rightarrow>
          (let start = foldl lowest p ps;
               sorted = sort_key (polarAngle start) (remove1 start points)
           in rev (fold (\<lambda>point hpts. point # hullPop point hpts) sorted [start])))"

definition pickTopLeft :: "point \<Rightarrow> point \<Rightarrow> point" where
  "pickTopLeft m p = (if px p + py p < px m + py m then p else m)"

definition pickTopRight :: "point \<Rightarrow> point \<Rightarrow> point" where
  "pickTopRight m p = (if px p - py p > px m - py m then p else m)"

definition pickBottomRight :: "point \<Rightarrow> point \<Rightarrow> point" where
  "pickBottomRight m p = (if px p + py p > px m + py m then p else m)"

definition pickBottomLeft :: "point \<Rightarrow> point \<Rightarrow> point" where
  "pickBottomLeft m p = (if px p - py p < px m - py m then p else m)"

definition approximateToQuadrilateral :: "point list \<Rightarrow> point list" where
  "approximateToQuadrilateral hpts =
     (if length hpts \<le> 4 then hpts
      else case hpts of
        [] \<Rightarrow> hpts
      | p # ps \<Rightarrow>
          [foldl pickTopLeft p ps, foldl pickTopRight p ps,
           foldl pickBottomRight p ps, foldl pickBottomLeft p ps])"

text \<open>\<open>None\<close> is the \<^verbatim>\<open>null\<close> that the function returns.\<close>

definition findRectangleCorners :: "point list \<Rightarrow> point list option" where
  "findRectangleCorners contour =
     (if length contour < 4 then None
      else let hpts = convexHull contour
           in if length hpts < 4 then None else Some (approximateToQuadrilateral hpts))"

section \<open>Stage 7: geometric validation\<close>

definition calculatePolygonArea :: "point list \<Rightarrow> real" where
  "calculatePolygonArea points =
     (if length points < 3 then 0
      else real_of_int
             \<bar>fold (\<lambda>i area.
                  let j = (i + 1) mod length points
                  in area + px (points ! i) * py (points ! j) - px (points ! j) * py (points ! i))
                [0..<length points] 0\<bar> / 2)"

text \<open>
  The operations of \<^verbatim>\<open>calculateAngle\<close> on JavaScript numbers. The two operands of the
  division are finite; the divisor is a product of square roots, so a zero divisor is
  \<open>+0\<close>.
\<close>

definition jsDivide :: "real \<Rightarrow> real \<Rightarrow> jsnum" where
  "jsDivide a b =
     (if b \<noteq> 0 then Num (a / b)
      else if a = 0 then NaN
      else if 0 < a then PosInf else NegInf)"

fun mathMin :: "real \<Rightarrow> jsnum \<Rightarrow> jsnum" where
  "mathMin a (Num b) = Num (min a b)"
| "mathMin a PosInf = Num a"
| "mathMin a NegInf = NegInf"
| "mathMin a NaN = NaN"

fun mathMax :: "real \<Rightarrow> jsnum \<Rightarrow> jsnum" where
  "mathMax a (Num b) = Num (max a b)"
| "mathMax a PosInf = PosInf"
| "mathMax a NegInf = Num a"
| "mathMax a NaN = NaN"

fun mathAcos :: "jsnum \<Rightarrow> jsnum" where
  "mathAcos (Num c) = (if - 1 \<le> c \<and> c \<le> 1 then Num (arccos c) else NaN)"
| "mathAcos v = NaN"

text \<open>Multiplying or dividing by a positive finite number, and subtracting one.\<close>

fun jsScale :: "real \<Rightarrow> jsnum \<Rightarrow> jsnum" where
  "jsScale k (Num a) = Num (a * k)"
| "jsScale k v = v"

fun jsMinus :: "jsnum \<Rightarrow> real \<Rightarrow> jsnum" where
  "jsMinus (Num a) k = Num (a - k)"
| "jsMinus v k = v"

fun mathAbs :: "jsnum \<Rightarrow> jsnum" where
  "mathAbs (Num a) = Num \<bar>a\<bar>"
| "mathAbs PosInf = PosInf"
| "mathAbs NegInf = PosInf"
| "mathAbs NaN = NaN"

fun jsLess :: "jsnum \<Rightarrow> real \<Rightarrow> bool" where
  "jsLess (Num a) k = (a < k)"
| "jsLess NegInf k = True"
| "jsLess v k = False"

text \<open>The argument that \<^verbatim>\<open>Math.acos\<close> receives.\<close>

definition clampedCos :: "point \<Rightarrow> point \<Rightarrow> point \<Rightarrow> jsnum" where
  "clampedCos p1 p2 p3 =
     (let v1x = px p1 - px p2; v1y = py p1 - py p2;
          v2x = px p3 - px p2; v2y = py p3 - py p2;
          dot = v1x * v2x + v1y * v2y;
          mag1 = sqrt (real_of_int (v1x * v1x + v1y * v1y));
          mag2 = sqrt (real_of_int (v2x * v2x + v2y * v2y));
          cos' = jsDivide (real_of_int dot) (mag1 * mag2)
      in mathMax (- 1) (mathMin 1 cos'))"

definition calculateAngle :: "point \<Rightarrow> point \<Rightarrow> point \<Rightarrow> jsnum" where
  "calculateAngle p1 p2 p3 = jsScale (1 / pi) (jsScale 180 (mathAcos (clampedCos p1 p2 p3)))"

definition angleOk :: "jsnum \<Rightarrow> bool" where
  "angleOk angle = jsLess (mathAbs (jsMinus angle 90)) 30"

definition isValidRectangle :: "point list \<Rightarrow> bool" where
  "isValidRectangle corners =
     (if length corners \<noteq> 4 then False
      else list_all angleOk
             (map (\<lambda>i. calculateAngle (corners ! i) (corners ! ((i + 1) mod 4))
                          (corners ! ((i + 2) mod 4)))
                [0..<4]))"

definition minArea :: "nat \<Rightarrow> nat \<Rightarrow> real" where
  "minArea w h = real (w * h) * 0.1"

definition maxArea :: "nat \<Rightarrow> nat \<Rightarrow> real" where
  "maxArea w h = real (w * h) * 0.8"

text \<open>
  The test that guards \<^verbatim>\<open>rectangles.push(corners)\<close>: the area bounds, then the angles.
\<close>

definition passesValidation :: "nat \<Rightarrow> nat \<Rightarrow> point list \<Rightarrow> bool" where
  "passesValidation w h corners =
     (let area = calculatePolygonArea corners
      in area > minArea w h \<and> area < maxArea w h \<and> isValidRectangle corners)"

section \<open>Stage 8: candidates and detection\<close>

text \<open>
  The seeds in scanning order, and the contours that the double loop traces from them.
  The tests made on a contour do not touch \<^verbatim>\<open>visited\<close>, so the contours are collected
  first and tested afterwards.
\<close>

definition seeds :: "nat \<Rightarrow> nat \<Rightarrow> (nat \<times> nat) list" where
  "seeds w h = [(x, y). y \<leftarrow> stepFrom 10 (h - 10) 5, x \<leftarrow> stepFrom 10 (w - 10) 5]"

fun scanSeeds :: "byte list \<Rightarrow> nat \<Rightarrow> nat \<Rightarrow> (nat \<times> nat) list \<Rightarrow> nat set \<Rightarrow> point list list" where
  "scanSeeds edges w h [] visited = []"
| "scanSeeds edges w h ((x, y) # rest) visited =
     (let index = y * w + x
      in if edgeOn edges index \<and> index \<notin> visited
         then (case traceContour edges w h x y visited of
                 (contour, visited') \<Rightarrow> contour # scanSeeds edges w h rest visited')
         else scanSeeds edges w h rest visited)"

definition tracedContours :: "byte list \<Rightarrow> nat \<Rightarrow> nat \<Rightarrow> point list list" where
  "tracedContours edges w h = scanSeeds edges w h (seeds w h) {}"

definition candidate :: "nat \<Rightarrow> nat \<Rightarrow> point list \<Rightarrow> point list option" where
  "candidate w h contour =
     (if length contour > 50 then
        (case findRectangleCorners contour of
           None \<Rightarrow> None
         | Some corners \<Rightarrow>
             if length corners = 4 \<and> passesValidation w h corners then Some corners else None)
      else None)"

definition findDocumentRectangles :: "byte list \<Rightarrow> nat \<Rightarrow> nat \<Rightarrow> point list list" where
  "findDocumentRectangles edges w h =
     sort_key (\<lambda>corners. - calculatePolygonArea corners)
       (List.map_filter (candidate w h) (tracedContours edges w h))"

definition detectDocumentEdges :: "imageData \<Rightarrow> point list option" where
  "detectDocumentEdges img =
     (let grayData = convertToGrayscale img;
          blurredData = gaussianBlur grayData (width img) (height img);
          edges = sobelEdgeDetection blurredData (width img) (height img);
          rectangles = findDocumentRectangles edges (width img) (height img)
      in case rectangles of [] \<Rightarrow> None | r # rs \<Rightarrow> Some r)"

section \<open>Stage 10: tone enhancement\<close>

text \<open>
  \<^verbatim>\<open>enhanceDocument\<close> fixes \<^verbatim>\<open>contrast = 1.3\<close> and \<^verbatim>\<open>brightness = 15\<close> as local
  constants; the loop is written here for any two values, and \<open>enhanceDocument\<close>
  is the loop at the values of the source. The loop rewrites the three colour channels
  of each pixel in place; a write past the end of the array is ignored, so the value read
  there does not matter.
\<close>

definition enhanceValue :: "real \<Rightarrow> real \<Rightarrow> byte \<Rightarrow> byte" where
  "enhanceValue contrast brightness v =
     toUint8Clamp (min 255 (max 0 ((real (unat v) - 128) * contrast + 128 + brightness)))"

definition enhanceStep :: "real \<Rightarrow> real \<Rightarrow> nat \<Rightarrow> byte list \<Rightarrow> byte list" where
  "enhanceStep contrast brightness i d =
     (let d1 = store d i (enhanceValue contrast brightness (d ! i));
          d2 = store d1 (i + 1) (enhanceValue contrast brightness (d1 ! (i + 1)));
          d3 = store d2 (i + 2) (enhanceValue contrast brightness (d2 ! (i + 2)))
      in d3)"

definition enhancePixels :: "real \<Rightarrow> real \<Rightarrow> byte list \<Rightarrow> byte list" where
  "enhancePixels contrast brightness d =
     fold (enhanceStep contrast brightness) (stepFrom 0 (length d) 4) d"

text \<open>
  The canvas is read whole (\<^verbatim>\<open>getImageData(0, 0, width, height)\<close> with the size of the
  canvas), changed and written back.
\<close>

definition enhanceDocument :: "imageData \<Rightarrow> imageData" where
  "enhanceDocument canvas = canvas\<lparr>data := enhancePixels 1.3 15 (data canvas)\<rparr>"

section \<open>Stage 9: rectification\<close>


definition aspectRatio :: real where
  "aspectRatio = 210 / 297"

definition outputWidth :: nat where
  "outputWidth = 800"

definition outputHeight :: real where
  "outputHeight = real outputWidth / aspectRatio"


text \<open>\<^verbatim>\<open>Math.round\<close> rounds a tie upwards.\<close>

definition mathRound :: "real \<Rightarrow> int" where
  "mathRound v = \<lfloor>v + 1 / 2\<rfloor>"

text \<open>
  The source coordinate of a destination pixel: the bilinear blend of one coordinate
  (\<open>px\<close> or \<open>py\<close>) of the four sorted corners.
\<close>

definition sourceCoord :: "(point \<Rightarrow> int) \<Rightarrow> point list \<Rightarrow> real \<Rightarrow> real \<Rightarrow> int" where
  "sourceCoord c sortedCorners u v =
     mathRound
       (real_of_int (c (sortedCorners ! 0)) * (1 - u) * (1 - v) +
        real_of_int (c (sortedCorners ! 1)) * u * (1 - v) +
        real_of_int (c (sortedCorners ! 2)) * u * v +
        real_of_int (c (sortedCorners ! 3)) * (1 - u) * v)"

text \<open>The body of the two loops, for the destination pixel \<open>(x, y)\<close>.\<close>

definition copyPixel ::
  "imageData \<Rightarrow> point list \<Rightarrow> nat \<Rightarrow> real \<Rightarrow> nat \<Rightarrow> nat \<Rightarrow> byte list \<Rightarrow> byte list"
where
  "copyPixel source sortedCorners destWidth destHeight x y dest =
     (let u = real x / real destWidth;
          v = real y / destHeight;
          sourceX = sourceCoord px sortedCorners u v;
          sourceY = sourceCoord py sortedCorners u v
      in if 0 \<le> sourceX \<and> sourceX < int (width source) \<and>
            0 \<le> sourceY \<and> sourceY < int (height source)
         then (let sourceIndex = nat ((sourceY * int (width source) + sourceX) * 4);
                   destIndex = (y * destWidth + x) * 4;
                   d0 = store dest destIndex (readOr0 (data source) sourceIndex);
                   d1 = store d0 (destIndex + 1) (readOr0 (data source) (sourceIndex + 1));
                   d2 = store d1 (destIndex + 2) (readOr0 (data source) (sourceIndex + 2))
               in store d2 (destIndex + 3) 255)
         else dest)"






section \<open>Notions used to state the properties\<close>

definition pixelAt :: "byte list \<Rightarrow> nat \<Rightarrow> nat \<Rightarrow> nat \<Rightarrow> int" where
  "pixelAt d w x y = uint (d ! (y * w + x))"

definition interior :: "nat \<Rightarrow> nat \<Rightarrow> nat \<Rightarrow> nat \<Rightarrow> bool" where
  "interior w h x y = (1 \<le> x \<and> x < w - 1 \<and> 1 \<le> y \<and> y < h - 1)"






text \<open>
  The index of a point in the row-major arrays, the points that lie in the image, and
  what the tracing loop requires of a pixel before it collects it.
\<close>

definition pixelIndex :: "nat \<Rightarrow> point \<Rightarrow> nat" where
  "pixelIndex w p = nat (py p * int w + px p)"

definition inImage :: "nat \<Rightarrow> nat \<Rightarrow> point \<Rightarrow> bool" where
  "inImage w h p = (0 \<le> px p \<and> px p < int w \<and> 0 \<le> py p \<and> py p < int h)"

definition collected :: "byte list \<Rightarrow> nat \<Rightarrow> nat \<Rightarrow> point \<Rightarrow> bool" where
  "collected edges w h p = (inImage w h p \<and> \<not> edgeOff edges (pixelIndex w p))"


section \<open>Typed-array loops\<close>

lemma length_store [simp]: "length (store xs i v) = length xs"
  by (simp add: store_def)

lemma nth_store: "store xs i v ! j = (if j = i \<and> i < length xs then v else xs ! j)"
  by (simp add: store_def)

lemma length_fold_store [simp]:
  "length (fold (\<lambda>k r. store r (f k) (g k)) ks r) = length r"
  by (induction ks arbitrary: r) simp_all

lemma nth_fold_store_miss:
  "j \<notin> f ` set ks \<Longrightarrow> fold (\<lambda>k r. store r (f k) (g k)) ks r ! j = r ! j"
  by (induction ks arbitrary: r) (auto simp: nth_store)

lemma nth_fold_store_hit:
  assumes "k \<in> set ks" and "f k < length r"
    and "\<And>k'. k' \<in> set ks \<Longrightarrow> f k' = f k \<Longrightarrow> g k' = g k"
  shows "fold (\<lambda>k r. store r (f k) (g k)) ks r ! f k = g k"
  using assms
proof (induction ks arbitrary: r rule: rev_induct)
  case Nil
  then show ?case by simp
next
  case (snoc x xs)
  show ?case
  proof (cases "f x = f k")
    case True
    have "g x = g k" using snoc.prems(3) [of x] True by simp
    with True snoc.prems(2) show ?thesis by (simp add: nth_store)
  next
    case False
    then have kin: "k \<in> set xs" using snoc.prems(1) by auto
    have "fold (\<lambda>k r. store r (f k) (g k)) xs r ! f k = g k"
    proof (rule snoc.IH [OF kin snoc.prems(2)])
      fix k' assume "k' \<in> set xs" and "f k' = f k"
      then show "g k' = g k" using snoc.prems(3) [of k'] by simp
    qed
    with False show ?thesis by (simp add: nth_store)
  qed
qed

lemma fold_fold_product:
  "fold (\<lambda>y. fold (\<lambda>x. F y x) xs) ys = fold (\<lambda>k. F (fst k) (snd k)) (List.product ys xs)"
proof (induction ys)
  case Nil
  show ?case by simp
next
  case (Cons y ys)
  have "fold (\<lambda>k. F (fst k) (snd k)) (map (Pair y) xs) = fold (F y) xs"
    by (simp add: fold_map comp_def)
  with Cons show ?case by (simp add: comp_def)
qed

lemma interior_loop_length [simp]:
  "length (fold (\<lambda>y. fold (\<lambda>x r. store r (y * w + x) (g x y)) xs) ys r) = length r"
proof -
  have "fold (\<lambda>y. fold (\<lambda>x r. store r (y * w + x) (g x y)) xs) ys r
      = fold (\<lambda>k r. store r (fst k * w + snd k) (g (snd k) (fst k))) (List.product ys xs) r"
    by (simp add: fold_fold_product [where F = "\<lambda>y x r. store r (y * w + x) (g x y)"])
  then show ?thesis by simp
qed

lemma interior_loop_nth:
  assumes "i < n"
  shows "fold (\<lambda>y. fold (\<lambda>x r. store r (y * w + x) (g x y)) [1..<w - 1]) [1..<h - 1]
           (replicate n z) ! i
       = (if 1 \<le> i mod w \<and> i mod w < w - 1 \<and> 1 \<le> i div w \<and> i div w < h - 1
          then g (i mod w) (i div w) else z)"
proof -
  let ?ks = "List.product [1..<h - 1] [1..<w - 1]"
  let ?f = "\<lambda>k. fst k * w + snd k"
  let ?g = "\<lambda>k. g (snd k) (fst k)"
  have eq: "fold (\<lambda>y. fold (\<lambda>x r. store r (y * w + x) (g x y)) [1..<w - 1]) [1..<h - 1]
           (replicate n z) = fold (\<lambda>k r. store r (?f k) (?g k)) ?ks (replicate n z)"
    by (simp add: fold_fold_product [where F = "\<lambda>y x r. store r (y * w + x) (g x y)"])
  have key: "\<And>k. k \<in> set ?ks \<Longrightarrow> snd k = ?f k mod w \<and> fst k = ?f k div w"
    by auto
  show ?thesis
  proof (cases "1 \<le> i mod w \<and> i mod w < w - 1 \<and> 1 \<le> i div w \<and> i div w < h - 1")
    case True
    let ?k = "(i div w, i mod w)"
    have k: "?k \<in> set ?ks" using True by auto
    have fk: "?f ?k = i" by simp
    have "fold (\<lambda>k r. store r (?f k) (?g k)) ?ks (replicate n z) ! ?f ?k = ?g ?k"
    proof (rule nth_fold_store_hit [OF k])
      show "?f ?k < length (replicate n z)" using assms by simp
    next
      fix k' assume "k' \<in> set ?ks" and "?f k' = ?f ?k"
      with key [of k'] show "?g k' = ?g ?k" by simp
    qed
    with True eq show ?thesis by simp
  next
    case False
    have "i \<notin> ?f ` set ?ks"
    proof
      assume "i \<in> ?f ` set ?ks"
      then obtain k where k: "k \<in> set ?ks" and i: "i = ?f k" by auto
      from key [OF k] k i have "1 \<le> i mod w \<and> i mod w < w - 1 \<and> 1 \<le> i div w \<and> i div w < h - 1"
        by auto
      with False show False by simp
    qed
    then have "fold (\<lambda>k r. store r (?f k) (?g k)) ?ks (replicate n z) ! i = replicate n z ! i"
      by (rule nth_fold_store_miss)
    moreover have "replicate n z ! i = z" using assms by simp
    ultimately show ?thesis using False eq by presburger
  qed
qed

lemma nat_index: "nat (int a * int w + int b) = a * w + b"
  by (metis nat_int of_nat_add of_nat_mult)

lemma convolve_interior:
  assumes "(y + 2) * w + x + 2 < length d"
  shows "convolve d w [k0, k1, k2, k3, k4, k5, k6, k7, k8] (Suc x) (Suc y) =
     Some (uint (d ! (y * w + x)) * k0 + uint (d ! (y * w + x + 1)) * k1
         + uint (d ! (y * w + x + 2)) * k2
         + uint (d ! ((y + 1) * w + x)) * k3 + uint (d ! ((y + 1) * w + x + 1)) * k4
         + uint (d ! ((y + 1) * w + x + 2)) * k5
         + uint (d ! ((y + 2) * w + x)) * k6 + uint (d ! ((y + 2) * w + x + 1)) * k7
         + uint (d ! ((y + 2) * w + x + 2)) * k8)"
proof -
  let ?is = "[y * w + x, y * w + x + 1, y * w + x + 2,
              (y + 1) * w + x, (y + 1) * w + x + 1, (y + 1) * w + x + 2,
              (y + 2) * w + x, (y + 2) * w + x + 1, (y + 2) * w + x + 2]"
  have idxs: "map (\<lambda>(ky, kx). (int (Suc y) + ky) * int w + (int (Suc x) + kx)) offsets
            = map int ?is"
    by (simp add: offsets_def algebra_simps)
  have h: "y * w + 2 * w + x + 2 < length d"
    using assms by (simp add: add_mult_distrib)
  have bnd: "j < length d" if "j \<in> set ?is" for j
    using that h by (auto simp: add_mult_distrib)
  have inr: "list_all (\<lambda>i. 0 \<le> i \<and> i < int (length d)) (map int ?is)"
    unfolding list_all_iff
  proof (intro ballI)
    fix i assume "i \<in> set (map int ?is)"
    then obtain j where "j \<in> set ?is" and "i = int j"
      unfolding set_map by blast
    with bnd [of j] show "0 \<le> i \<and> i < int (length d)" by simp
  qed
  show ?thesis
    unfolding convolve_def Let_def idxs
    by (simp only: inr if_True) (simp del: of_nat_add of_nat_mult of_nat_Suc)
qed




lemma unsigned_real_nonneg [simp]: "0 \<le> (unsigned (b::'a::len word) :: real)"
proof -
  have "(unsigned b :: real) = real (unat b)" by simp
  also have "0 \<le> real (unat b)" by (rule of_nat_0_le_iff)
  finally show ?thesis .
qed

lemma unsigned_real_byte_le [simp]: "(unsigned (b::byte) :: real) \<le> 255"
proof -
  have "unat b < 2 ^ 8" using unsigned_less [of b, where 'a = nat] by simp
  then have "unat b \<le> 255" by simp
  then have "real (unat b) \<le> real 255" by (rule of_nat_mono)
  then show ?thesis by simp
qed





lemma toUint8Clamp_byte: "toUint8Clamp (real (unat b)) = b"
proof -
  have c: "min 255 (max 0 (real (unat b))) = real (unat b)"
    by simp
  have f: "\<lfloor>real (unat b)\<rfloor> = int (unat b)" by (rule floor_of_nat)
  have lt: "\<not> real_of_int (int (unat b)) + 1 / 2 < real (unat b)" by simp
  have gt: "real (unat b) < real_of_int (int (unat b)) + 1 / 2" by simp
  have "toUint8Clamp (real (unat b)) = word_of_int (int (unat b))"
    unfolding toUint8Clamp_def c Let_def f using lt gt by (simp only: if_False if_True)
  then show ?thesis by simp
qed

lemma gaussianBlur_length: "length (gaussianBlur d w h) = length d"
  by (simp add: gaussianBlur_def)

lemma sobelEdgeDetection_length: "length (sobelEdgeDetection d w h) = length d"
  by (simp add: sobelEdgeDetection_def)

lemma index_div_mod: "x < w \<Longrightarrow> (y * w + x) div w = y \<and> (y * w + x) mod w = (x::nat)"
  by simp

lemma index_bound: "x < w \<Longrightarrow> y < h \<Longrightarrow> y * w + x < w * (h::nat)"
proof -
  assume "x < w" and "y < h"
  then have "y * w + x < y * w + w" by simp
  also have "\<dots> = (y + 1) * w" by (simp add: add_mult_distrib)
  also have "\<dots> \<le> h * w" using \<open>y < h\<close> by (intro mult_le_mono1) simp
  finally show ?thesis by (simp add: mult.commute)
qed

lemma gaussianBlur_nth:
  assumes "x < w" and "y * w + x < length d"
  shows "gaussianBlur d w h ! (y * w + x) = (if interior w h x y then blurPixel d w x y else 0)"
  using assms interior_loop_nth [of "y * w + x" "length d" w "blurPixel d w" h 0]
  by (simp add: gaussianBlur_def interior_def)


lemma blurPixel_interior:
  assumes "interior w h x y" and "length d = w * h"
  shows "blurPixel d w x y =
     toUint8Clamp (real_of_int
        (pixelAt d w (x - 1) (y - 1) * 1 + pixelAt d w x (y - 1) * 2 + pixelAt d w (x + 1) (y - 1) * 1
       + pixelAt d w (x - 1) y * 2 + pixelAt d w x y * 4 + pixelAt d w (x + 1) y * 2
       + pixelAt d w (x - 1) (y + 1) * 1 + pixelAt d w x (y + 1) * 2 + pixelAt d w (x + 1) (y + 1) * 1)
        / 16)"
proof -
  from assms(1) obtain x' y' where x: "x = Suc x'" and y: "y = Suc y'"
    and xw: "x' + 2 < w" and yh: "y' + 2 < h"
    unfolding interior_def by (cases x; cases y) auto
  have "(y' + 2) * w + (x' + 2) < w * h"
    using xw yh by (rule index_bound)
  then have r: "(y' + 2) * w + x' + 2 < length d" using assms(2) by simp
  show ?thesis
    unfolding blurPixel_def kernel_def kernelSum_def x y convolve_interior [OF r]
    by (simp add: pixelAt_def algebra_simps)
qed


lemma store_same: "store d i (d ! i) = d"
  by (simp add: store_def)

lemma enhanceValue_neutral: "enhanceValue 1 0 v = v"
proof -
  have "(real (unat v) - 128) * 1 + 128 + 0 = real (unat v)" by simp
  moreover have "min 255 (max 0 (real (unat v))) = real (unat v)" by simp
  ultimately show ?thesis
    unfolding enhanceValue_def by (simp only: toUint8Clamp_byte)
qed

lemma enhanceStep_neutral: "enhanceStep 1 0 i d = d"
  by (simp add: enhanceStep_def enhanceValue_neutral store_same)

lemma fold_neutral: "(\<And>k s. f k s = s) \<Longrightarrow> fold f ks s = s"
  by (induction ks) simp_all

text \<open>
  C8. With contrast 1 and brightness 0 the enhancement loop returns every buffer
  unchanged, and so does applying it twice.
\<close>

theorem enhancePixels_neutral:
  "enhancePixels 1 0 d = d \<and> enhancePixels 1 0 (enhancePixels 1 0 d) = d"
proof -
  have "enhancePixels 1 0 d' = d'" for d'
    unfolding enhancePixels_def by (rule fold_neutral) (rule enhanceStep_neutral)
  then show ?thesis by simp
qed




text \<open>
  C4 (amended). On a buffer of \<open>w * h\<close> bytes the smoother writes, at every interior
  pixel, the 3 by 3 kernel sum divided by 16 and stored as a byte; the pixels of the
  one-pixel border ring are never written and hold 0.
\<close>

theorem gaussianBlur_kernel_and_border:
  assumes "length d = w * h" and "x < w" and "y < h"
  shows "length (gaussianBlur d w h) = length d \<and>
         gaussianBlur d w h ! (y * w + x) =
           (if interior w h x y
            then toUint8Clamp (real_of_int
              (pixelAt d w (x - 1) (y - 1) * 1 + pixelAt d w x (y - 1) * 2 + pixelAt d w (x + 1) (y - 1) * 1
             + pixelAt d w (x - 1) y * 2 + pixelAt d w x y * 4 + pixelAt d w (x + 1) y * 2
             + pixelAt d w (x - 1) (y + 1) * 1 + pixelAt d w x (y + 1) * 2 + pixelAt d w (x + 1) (y + 1) * 1)
              / 16)
            else 0)"
proof -
  have "y * w + x < length d"
    using assms index_bound [of x w y h] by simp
  then show ?thesis
    using assms blurPixel_interior [of w h x y d]
    by (simp add: gaussianBlur_length gaussianBlur_nth)
qed

theorem gaussianBlur_kernel_and_border_witness:
  "length [10, 20, 30, 40, 50, 60, 70, 80, 90 :: byte] = 3 * 3 \<and> (1::nat) < 3 \<and>
   gaussianBlur [10, 20, 30, 40, 50, 60, 70, 80, 90] 3 3 ! 4 = 50 \<and>
   gaussianBlur [10, 20, 30, 40, 50, 60, 70, 80, 90] 3 3 ! 0 = 0"
  using gaussianBlur_kernel_and_border [of "[10, 20, 30, 40, 50, 60, 70, 80, 90]" 3 3 1 1]
    gaussianBlur_kernel_and_border [of "[10, 20, 30, 40, 50, 60, 70, 80, 90]" 3 3 0 0]
  by (simp add: interior_def pixelAt_def toUint8Clamp_def)

theorem gaussianBlur_border_not_input:
  "gaussianBlur (replicate 9 100) 3 3 ! 0 \<noteq> replicate 9 100 ! 0"
proof -
  have "gaussianBlur (replicate 9 100) 3 3 ! (0 * 3 + 0) = 0"
    by (subst gaussianBlur_nth) (simp_all add: interior_def)
  then show ?thesis by simp
qed

section \<open>Rectification\<close>

lemma outputHeight_value: "outputHeight = 7920 / 7"
  by (simp add: outputHeight_def outputWidth_def aspectRatio_def)


lemma ceiling_outputHeight: "\<lceil>outputHeight\<rceil> = 1132"
  unfolding outputHeight_value by (simp add: ceiling_eq_iff)



lemma length_enhanceStep [simp]: "length (enhanceStep c b i d) = length d"
  by (simp add: enhanceStep_def Let_def)

lemma length_fold_enhanceStep [simp]: "length (fold (enhanceStep c b) ks d) = length d"
  by (induction ks arbitrary: d) simp_all

lemma length_enhancePixels [simp]: "length (enhancePixels c b d) = length d"
  by (simp add: enhancePixels_def)

lemma length_copyPixel [simp]: "length (copyPixel s sc dw dh x y d) = length d"
  by (simp add: copyPixel_def Let_def)

lemma length_fold_copyPixel [simp]:
  "length (fold (\<lambda>x. copyPixel s sc dw dh x y) xs d) = length d"
  by (induction xs arbitrary: d) simp_all

lemma length_fold_fold_copyPixel [simp]:
  "length (fold (\<lambda>y. fold (\<lambda>x. copyPixel s sc dw dh x y) xs) ys d) = length d"
  by (induction ys arbitrary: d) simp_all

lemma enhanceDocument_size [simp]:
  "width (enhanceDocument c) = width c" "height (enhanceDocument c) = height c"
  "length (data (enhanceDocument c)) = length (data c)"
  by (simp_all add: enhanceDocument_def)












section \<open>Angles and validation\<close>














lemma angleOk_Num [simp]: "angleOk (Num a) \<longleftrightarrow> \<bar>a - 90\<bar> < 30"
  by (simp add: angleOk_def)

lemma angleOk_NaN [simp]: "\<not> angleOk NaN"
  by (simp add: angleOk_def)













section \<open>Contour tracing\<close>

lemma traceLoop_stop:
  "stack = [] \<or> \<not> length contour < 1000 \<Longrightarrow>
     traceLoop edges w h stack contour visited = (contour, visited)"
  by (subst traceLoop.simps) (auto split: list.splits)

lemma traceLoop_skip:
  assumes "length contour < 1000"
    and "px p < 0 \<or> int w \<le> px p \<or> py p < 0 \<or> int h \<le> py p \<or>
         pixelIndex w p \<in> visited \<or> edgeOff edges (pixelIndex w p)"
  shows "traceLoop edges w h (p # rest) contour visited = traceLoop edges w h rest contour visited"
  using assms by (subst traceLoop.simps) (simp add: pixelIndex_def Let_def)

lemma traceLoop_take:
  assumes "length contour < 1000"
    and "\<not> (px p < 0 \<or> int w \<le> px p \<or> py p < 0 \<or> int h \<le> py p \<or>
         pixelIndex w p \<in> visited \<or> edgeOff edges (pixelIndex w p))"
  shows "traceLoop edges w h (p # rest) contour visited =
         traceLoop edges w h (rev (neighbours (px p) (py p)) @ rest) (contour @ [p])
           (insert (pixelIndex w p) visited)"
  using assms by (subst traceLoop.simps) (simp add: pixelIndex_def Let_def)

lemma traceLoop_inv:
  "\<exists>new. fst (traceLoop edges w h stack contour visited) = contour @ new \<and>
         snd (traceLoop edges w h stack contour visited) = visited \<union> pixelIndex w ` set new \<and>
         distinct (map (pixelIndex w) new) \<and>
         pixelIndex w ` set new \<inter> visited = {} \<and>
         list_all (collected edges w h) new \<and>
         (new = [] \<or> length (contour @ new) \<le> 1000)"
proof (induction edges w h stack contour visited rule: traceLoop.induct)
  case (1 edges w h stack contour visited)
  show ?case
  proof (cases "stack = [] \<or> \<not> length contour < 1000")
    case True
    then have "traceLoop edges w h stack contour visited = (contour, visited)"
      by (rule traceLoop_stop)
    then show ?thesis by (intro exI [of _ "[]"]) simp
  next
    case False
    then obtain p rest where st: "stack = p # rest" and len: "length contour < 1000"
      by (cases stack) auto
    let ?skip = "px p < 0 \<or> int w \<le> px p \<or> py p < 0 \<or> int h \<le> py p \<or>
         nat (py p * int w + px p) \<in> visited \<or> edgeOff edges (nat (py p * int w + px p))"
    show ?thesis
    proof (cases ?skip)
      case True
      then have eq: "traceLoop edges w h stack contour visited
                   = traceLoop edges w h rest contour visited"
        unfolding st using len by (intro traceLoop_skip) (simp_all add: pixelIndex_def)
      show ?thesis
        unfolding eq by (rule "1.IH"(1) [OF st len refl refl refl True])
    next
      case False
      then have eq: "traceLoop edges w h stack contour visited
                   = traceLoop edges w h (rev (neighbours (px p) (py p)) @ rest) (contour @ [p])
                       (insert (pixelIndex w p) visited)"
        unfolding st using len by (intro traceLoop_take) (simp_all add: pixelIndex_def)
      from "1.IH"(2) [OF st len refl refl refl False]
      obtain new where
        a: "fst (traceLoop edges w h (rev (neighbours (px p) (py p)) @ rest) (contour @ [p])
                  (insert (nat (py p * int w + px p)) visited)) = (contour @ [p]) @ new"
        and b: "snd (traceLoop edges w h (rev (neighbours (px p) (py p)) @ rest) (contour @ [p])
                  (insert (nat (py p * int w + px p)) visited))
                = insert (nat (py p * int w + px p)) visited \<union> pixelIndex w ` set new"
        and c: "distinct (map (pixelIndex w) new)"
        and d: "pixelIndex w ` set new \<inter> insert (nat (py p * int w + px p)) visited = {}"
        and e: "list_all (collected edges w h) new"
        and f: "new = [] \<or> length ((contour @ [p]) @ new) \<le> 1000"
        by blast
      have ip: "pixelIndex w p = nat (py p * int w + px p)" by (simp add: pixelIndex_def)
      have cp: "collected edges w h p"
        using False by (simp add: collected_def inImage_def pixelIndex_def)
      have nv: "pixelIndex w p \<notin> visited" using False by (simp add: ip)
      have "fst (traceLoop edges w h stack contour visited) = contour @ (p # new)"
        unfolding eq ip using a by simp
      moreover have "snd (traceLoop edges w h stack contour visited)
                   = visited \<union> pixelIndex w ` set (p # new)"
        unfolding eq ip using b by (simp add: ip)
      moreover have "distinct (map (pixelIndex w) (p # new))"
        using c d by (auto simp: ip)
      moreover have "pixelIndex w ` set (p # new) \<inter> visited = {}"
        using d nv by (auto simp: ip)
      moreover have "list_all (collected edges w h) (p # new)"
        using e cp by simp
      moreover have "length (contour @ (p # new)) \<le> 1000"
        using f len by auto
      ultimately show ?thesis by blast
    qed
  qed
qed

lemma traceContour_inv:
  assumes "traceContour edges w h x y visited = (contour, visited')"
  shows "visited' = visited \<union> pixelIndex w ` set contour \<and>
         distinct (map (pixelIndex w) contour) \<and>
         pixelIndex w ` set contour \<inter> visited = {} \<and>
         list_all (collected edges w h) contour \<and>
         length contour \<le> 1000"
proof -
  from traceLoop_inv [of edges w h "[Point (int x) (int y)]" "[]" visited]
  obtain new where
    "fst (traceLoop edges w h [Point (int x) (int y)] [] visited) = [] @ new"
    "snd (traceLoop edges w h [Point (int x) (int y)] [] visited)
       = visited \<union> pixelIndex w ` set new"
    "distinct (map (pixelIndex w) new)"
    "pixelIndex w ` set new \<inter> visited = {}"
    "list_all (collected edges w h) new"
    "new = [] \<or> length ([] @ new) \<le> 1000"
    by blast
  moreover have "fst (traceLoop edges w h [Point (int x) (int y)] [] visited) = contour"
    and "snd (traceLoop edges w h [Point (int x) (int y)] [] visited) = visited'"
    using assms by (simp_all add: traceContour_def)
  ultimately show ?thesis by auto
qed

lemma scanSeeds_inv:
  "distinct (map (pixelIndex w) (concat (scanSeeds edges w h sds visited))) \<and>
   pixelIndex w ` set (concat (scanSeeds edges w h sds visited)) \<inter> visited = {} \<and>
   list_all (\<lambda>c. length c \<le> 1000) (scanSeeds edges w h sds visited) \<and>
   list_all (collected edges w h) (concat (scanSeeds edges w h sds visited))"
proof (induction sds arbitrary: visited)
  case Nil
  show ?case by simp
next
  case (Cons s sds)
  obtain x y where s: "s = (x, y)" by (cases s)
  show ?case
  proof (cases "edgeOn edges (y * w + x) \<and> y * w + x \<notin> visited")
    case False
    then have "scanSeeds edges w h (s # sds) visited = scanSeeds edges w h sds visited"
      by (auto simp: s)
    then show ?thesis using Cons.IH [of visited] by simp
  next
    case True
    obtain contour visited' where t: "traceContour edges w h x y visited = (contour, visited')"
      by (cases "traceContour edges w h x y visited")
    have eq: "scanSeeds edges w h (s # sds) visited = contour # scanSeeds edges w h sds visited'"
      using True t by (simp add: s)
    let ?rest = "concat (scanSeeds edges w h sds visited')"
    from traceContour_inv [OF t] have
      v: "visited' = visited \<union> pixelIndex w ` set contour"
      and dc: "distinct (map (pixelIndex w) contour)"
      and cv: "pixelIndex w ` set contour \<inter> visited = {}"
      and cc: "list_all (collected edges w h) contour"
      and cl: "length contour \<le> 1000"
      by simp_all
    from Cons.IH [of visited'] have
      dr: "distinct (map (pixelIndex w) ?rest)"
      and rv: "pixelIndex w ` set ?rest \<inter> visited' = {}"
      and rl: "list_all (\<lambda>c. length c \<le> 1000) (scanSeeds edges w h sds visited')"
      and rc: "list_all (collected edges w h) ?rest"
      by simp_all
    have rv1: "pixelIndex w ` set ?rest \<inter> visited = {}"
      and rv2: "pixelIndex w ` set contour \<inter> pixelIndex w ` set ?rest = {}"
      using rv unfolding v by blast+
    have "set (map (pixelIndex w) contour) \<inter> set (map (pixelIndex w) ?rest) = {}"
      using rv2 by (simp only: set_map)
    with dc dr have "distinct (map (pixelIndex w) contour @ map (pixelIndex w) ?rest)"
      by (simp only: distinct_append simp_thms)
    then have d: "distinct (map (pixelIndex w) (concat (contour # scanSeeds edges w h sds visited')))"
      by (simp only: concat.simps map_append)
    have "pixelIndex w ` (set contour \<union> set ?rest) \<inter> visited = {}"
      using cv rv1 by blast
    then have i: "pixelIndex w ` set (concat (contour # scanSeeds edges w h sds visited')) \<inter> visited = {}"
      by (simp only: concat.simps set_append)
    have l: "list_all (\<lambda>c. length c \<le> 1000) (contour # scanSeeds edges w h sds visited')"
      using cl rl by simp
    have c: "list_all (collected edges w h) (concat (contour # scanSeeds edges w h sds visited'))"
      using cc rc by simp
    show ?thesis unfolding eq using d i l c by blast
  qed
qed

text \<open>
  C5. The tracing loop is a total function: it terminates on every edge mask, stack and
  visited set, because each iteration either pops the stack or lengthens the contour,
  which stops at 1000 points (the measure is \<open>8 * (1000 - |contour|) + |stack|\<close>).
  Over one pass, the pixels collected in all the contours are pairwise different, also as
  indices into the visited array, so no pixel is marked or collected twice; every
  contour has at most 1000 points; and every collected pixel is inside the image and is
  not an "off" pixel of the mask.
\<close>

theorem tracedContours_each_pixel_once:
  "distinct (concat (tracedContours edges w h)) \<and>
   distinct (map (pixelIndex w) (concat (tracedContours edges w h))) \<and>
   list_all (\<lambda>contour. length contour \<le> 1000) (tracedContours edges w h) \<and>
   list_all (collected edges w h) (concat (tracedContours edges w h))"
proof -
  have "distinct (map (pixelIndex w) (concat (tracedContours edges w h)))"
    unfolding tracedContours_def using scanSeeds_inv [of w edges h "seeds w h" "{}"] by simp
  moreover from this have "distinct (concat (tracedContours edges w h))"
    by (simp only: distinct_map)
  ultimately show ?thesis
    unfolding tracedContours_def using scanSeeds_inv [of w edges h "seeds w h" "{}"] by simp
qed

section \<open>Frames of constant colour\<close>















section \<open>Detected corners\<close>

lemma foldl_pick_mem:
  assumes "\<And>m p. f m p = m \<or> f m p = p"
  shows "foldl f x xs \<in> set (x # xs)"
proof (induction xs arbitrary: x)
  case Nil
  show ?case by simp
next
  case (Cons y ys)
  have "foldl f (f x y) ys \<in> set (f x y # ys)" by (rule Cons.IH)
  moreover have "f x y = x \<or> f x y = y" by (rule assms)
  ultimately show ?case by auto
qed

lemma pick_cases:
  "pickTopLeft m p = m \<or> pickTopLeft m p = p"
  "pickTopRight m p = m \<or> pickTopRight m p = p"
  "pickBottomRight m p = m \<or> pickBottomRight m p = p"
  "pickBottomLeft m p = m \<or> pickBottomLeft m p = p"
  "lowest m p = m \<or> lowest m p = p"
  by (simp_all add: pickTopLeft_def pickTopRight_def pickBottomRight_def pickBottomLeft_def
      lowest_def)

lemma set_approximateToQuadrilateral:
  "set (approximateToQuadrilateral hpts) \<subseteq> set hpts"
proof (cases "length hpts \<le> 4")
  case True
  then show ?thesis by (simp add: approximateToQuadrilateral_def)
next
  case False
  then obtain p ps where h: "hpts = p # ps" by (cases hpts) auto
  have "foldl pickTopLeft p ps \<in> set hpts" "foldl pickTopRight p ps \<in> set hpts"
    "foldl pickBottomRight p ps \<in> set hpts" "foldl pickBottomLeft p ps \<in> set hpts"
    unfolding h by (rule foldl_pick_mem, rule pick_cases)+
  then show ?thesis using False by (simp add: approximateToQuadrilateral_def h)
qed

lemma set_hullPop: "set (hullPop pt hs) \<subseteq> set hs"
  by (induction pt hs rule: hullPop.induct) auto

lemma set_hull_scan:
  "set (fold (\<lambda>point hs. point # hullPop point hs) srt hs) \<subseteq> set srt \<union> set hs"
proof (induction srt arbitrary: hs)
  case Nil
  show ?case by simp
next
  case (Cons a srt)
  have "set (fold (\<lambda>point hs. point # hullPop point hs) srt (a # hullPop a hs))
        \<subseteq> set srt \<union> set (a # hullPop a hs)"
    by (rule Cons.IH)
  moreover have "set (a # hullPop a hs) \<subseteq> insert a (set hs)"
    using set_hullPop [of a hs] by auto
  ultimately show ?case by auto
qed

lemma set_convexHull: "set (convexHull points) \<subseteq> set points"
proof (cases "length points < 3")
  case True
  then show ?thesis by (simp add: convexHull_def)
next
  case False
  then obtain p ps where pts: "points = p # ps" by (cases points) auto
  let ?start = "foldl lowest p ps"
  let ?sorted = "sort_key (polarAngle ?start) (remove1 ?start points)"
  have s: "?start \<in> set points"
    unfolding pts by (rule foldl_pick_mem) (rule pick_cases)
  have "set ?sorted \<subseteq> set points"
    using set_remove1_subset [of ?start points] by simp
  with s have "set ?sorted \<union> set [?start] \<subseteq> set points" by simp
  with set_hull_scan [of ?sorted "[?start]"]
  have "set (fold (\<lambda>point hs. point # hullPop point hs) ?sorted [?start]) \<subseteq> set points"
    by (rule subset_trans)
  then show ?thesis
    using False by (simp add: convexHull_def pts Let_def)
qed

lemma set_findRectangleCorners:
  "findRectangleCorners contour = Some corners \<Longrightarrow> set corners \<subseteq> set contour"
  using set_approximateToQuadrilateral [of "convexHull contour"] set_convexHull [of contour]
  by (auto simp: findRectangleCorners_def Let_def split: if_splits)

lemma candidate_subset:
  "candidate w h contour = Some corners \<Longrightarrow> set corners \<subseteq> set contour"
  using set_findRectangleCorners [of contour corners]
  by (auto simp: candidate_def split: if_splits option.splits)

lemma findDocumentRectangles_from_contour:
  assumes "corners \<in> set (findDocumentRectangles edges w h)"
  shows "\<exists>contour \<in> set (tracedContours edges w h). set corners \<subseteq> set contour"
proof -
  from assms have "corners \<in> set (List.map_filter (candidate w h) (tracedContours edges w h))"
    by (simp add: findDocumentRectangles_def)
  then obtain contour where "contour \<in> set (tracedContours edges w h)"
    and "candidate w h contour = Some corners"
    by (auto simp: List.map_filter_def)
  then show ?thesis using candidate_subset by blast
qed

lemma traced_points_collected:
  assumes "contour \<in> set (tracedContours edges w h)" and "p \<in> set contour"
  shows "collected edges w h p"
proof -
  have "list_all (collected edges w h) (concat (tracedContours edges w h))"
    unfolding tracedContours_def using scanSeeds_inv [of w edges h "seeds w h" "{}"] by simp
  with assms show ?thesis by (auto simp: list_all_iff)
qed

lemma detect_in_rectangles:
  assumes "detectDocumentEdges img = Some corners"
  shows "corners \<in> set (findDocumentRectangles
           (sobelEdgeDetection (gaussianBlur (convertToGrayscale img) (width img) (height img))
              (width img) (height img)) (width img) (height img))"
  using assms by (auto simp: detectDocumentEdges_def Let_def split: list.splits)

lemma detect_corners_collected:
  assumes "detectDocumentEdges img = Some corners" and "p \<in> set corners"
  shows "inImage (width img) (height img) p"
proof -
  let ?E = "sobelEdgeDetection (gaussianBlur (convertToGrayscale img) (width img) (height img))
              (width img) (height img)"
  from findDocumentRectangles_from_contour [OF detect_in_rectangles [OF assms(1)]]
  obtain contour where "contour \<in> set (tracedContours ?E (width img) (height img))"
    and "set corners \<subseteq> set contour" by blast
  with assms(2) have "collected ?E (width img) (height img) p"
    using traced_points_collected by blast
  then show ?thesis by (simp add: collected_def)
qed

text \<open>
  C10. Whatever the frame, the corners of the quadrilateral that detection returns, when
  it returns one, are points with integer coordinates inside the image:
  \<open>0 \<le> x < width\<close> and \<open>0 \<le> y < height\<close>. Each corner is a point of the convex hull
  of a traced contour, the hull only keeps points of the contour, and the tracing loop
  only collects points that passed its bounds test.
\<close>

theorem detected_corners_in_image:
  "list_all (\<lambda>p. 0 \<le> px p \<and> px p < int (width img) \<and> 0 \<le> py p \<and> py p < int (height img))
     (case detectDocumentEdges img of None \<Rightarrow> [] | Some corners \<Rightarrow> corners)"
proof (cases "detectDocumentEdges img")
  case None
  then show ?thesis by simp
next
  case (Some corners)
  have "inImage (width img) (height img) p" if "p \<in> set corners" for p
    using Some that by (rule detect_corners_collected)
  then show ?thesis
    using Some by (simp add: list_all_iff inImage_def)
qed

end
